theory Spec2Isabelle
  imports Complex_Main
begin

section \<open>Biolink predicate hierarchy analysis (extract_parent_predicates.py)\<close>

text \<open>
  The hierarchy is the JSON array \<open>treeData\<close>: every node is a dictionary that may carry
  a \<open>name\<close> key (a string) and may carry a \<open>children\<close> key (a list of nodes). An absent
  key is \<open>None\<close>; a present but empty \<open>children\<close> list is \<open>Some []\<close>.

  Python integers are \<open>int\<close>. The two quotients \<open>coverage_ratio\<close> and \<open>efficiency\<close>
  are computed by Python's true division; they are modelled as exact rationals, so
  rounding to a double is outside the model, and so is the interpreter's recursion limit.
\<close>

datatype node = Node (node_name: "string option") (node_children: "node list option")

datatype py_error = IndexError

record node_metrics =
  name :: string
  depth :: int
  direct_children :: int
  total_children :: int
  coverage_ratio :: rat
  efficiency :: rat
  has_children :: bool

subsection \<open>Counting and name extraction\<close>

text \<open>
  \<open>count_children_recursive\<close> returns the pair (total, direct). The loop over the
  children is a fold whose accumulator is the running total; only the first component of
  a child's result is used.
\<close>

fun count_children_recursive :: "node \<Rightarrow> int \<Rightarrow> int \<times> int" where
  "count_children_recursive (Node nm None) d = (0, 0)"
| "count_children_recursive (Node nm (Some cs)) d =
     (let direct = int (length cs);
          total = fold (\<lambda>child acc. acc + fst (count_children_recursive child (d + 1))) cs direct
      in (total, direct))"

text \<open>
  \<open>extract_all_predicates\<close> appends the node's own name when there is one and then
  extends the list with every child's result, whether or not the node itself has a name.
\<close>

fun extract_all_predicates :: "node \<Rightarrow> int \<Rightarrow> string list" where
  "extract_all_predicates (Node nm ch) d =
     (let predicates = (case nm of None \<Rightarrow> [] | Some n \<Rightarrow> [n])
      in case ch of
           None \<Rightarrow> predicates
         | Some cs \<Rightarrow> fold (\<lambda>child acc. acc @ extract_all_predicates child (d + 1)) cs predicates)"

subsection \<open>The analysis pass\<close>

text \<open>
  \<open>analyze_node\<close> is a closure over \<open>all_predicates\<close> and over the list \<open>analysis\<close>
  that it appends to. The list is passed in and returned. A node without a name returns
  at once, before its children are looked at. The counting helper is called with its
  default depth 0.
\<close>

fun analyze_node :: "string list \<Rightarrow> node \<Rightarrow> int \<Rightarrow> node_metrics list \<Rightarrow> node_metrics list" where
  "analyze_node all_predicates (Node nm ch) d analysis =
     (case nm of
        None \<Rightarrow> analysis
      | Some n \<Rightarrow>
          (let (total, direct) = count_children_recursive (Node nm ch) 0;
               coverage = (if all_predicates \<noteq> []
                           then rat_of_int total / rat_of_nat (length all_predicates) else 0);
               eff = (if d > 0 then rat_of_int total / rat_of_int (d + 1) else rat_of_int total);
               analysis1 = analysis @
                 [\<lparr>name = n, depth = d, direct_children = direct, total_children = total,
                   coverage_ratio = coverage, efficiency = eff, has_children = (ch \<noteq> None)\<rparr>]
           in case ch of
                None \<Rightarrow> analysis1
              | Some cs \<Rightarrow>
                  fold (\<lambda>child a. analyze_node all_predicates child (d + 1) a) cs analysis1))"

text \<open>\<open>tree_data[0]\<close> raises IndexError on an empty document.\<close>

definition analyze_hierarchy :: "node list \<Rightarrow> py_error + node_metrics list" where
  "analyze_hierarchy tree_data =
     (case tree_data of
        [] \<Rightarrow> Inl IndexError
      | root_node # _ \<Rightarrow>
          (let all_predicates = extract_all_predicates root_node 0
           in Inr (analyze_node all_predicates root_node 0 [])))"

subsection \<open>Selecting and ranking parents\<close>

text \<open>
  \<open>list.sort(key=..., reverse=True)\<close> is the interpreter's stable sort run on the
  reversed list, with the result reversed again.
\<close>

definition sort_reverse :: "('a \<Rightarrow> 'k::linorder) \<Rightarrow> 'a list \<Rightarrow> 'a list" where
  "sort_reverse key xs = rev (sort_key key (rev xs))"

definition find_optimal_parents :: "node_metrics list \<Rightarrow> int \<Rightarrow> int \<Rightarrow> node_metrics list" where
  "find_optimal_parents analysis min_children max_depth =
     (let candidates = filter (\<lambda>node. has_children node \<and>
                                      total_children node \<ge> min_children \<and>
                                      depth node \<le> max_depth \<and>
                                      name node \<noteq> ''related_to'') analysis
      in sort_reverse efficiency candidates)"

subsection \<open>Building the predicate sets\<close>

text \<open>
  The dictionary \<open>sets\<close> starts with four empty lists and is then assigned key by key.
\<close>

definition create_predicate_sets :: "node_metrics list \<Rightarrow> (string \<rightharpoonup> string list)" where
  "create_predicate_sets analysis =
     (let optimal_parents = find_optimal_parents analysis 10 2;
          sets0 = [''comprehensive'' \<mapsto> [], ''focused'' \<mapsto> [], ''minimal'' \<mapsto> [],
                   ''high_level'' \<mapsto> []];
          sets1 = sets0(''comprehensive'' \<mapsto> map name (take 5 optimal_parents));
          focused_candidates =
            filter (\<lambda>p. 20 \<le> total_children p \<and> total_children p \<le> 50) optimal_parents;
          sets2 = sets1(''focused'' \<mapsto> map name (take 8 focused_candidates));
          minimal_candidates =
            filter (\<lambda>p. 5 \<le> total_children p \<and> total_children p \<le> 20) optimal_parents;
          sets3 = sets2(''minimal'' \<mapsto> map name (take 6 minimal_candidates));
          high_level_candidates = filter (\<lambda>p. depth p \<le> 2) optimal_parents;
          sets4 = sets3(''high_level'' \<mapsto> map name (take 6 high_level_candidates))
      in sets4)"

subsection \<open>Notions used in the statements\<close>

text \<open>
  The children of a node as a list (empty when the key is absent), the nodes of a tree in
  pre-order, and the renaming of every name field of a tree.
\<close>

definition child_list :: "node \<Rightarrow> node list" where
  "child_list n = (case node_children n of None \<Rightarrow> [] | Some cs \<Rightarrow> cs)"

fun nodes :: "node \<Rightarrow> node list" where
  "nodes (Node nm ch) =
     Node nm ch # (case ch of None \<Rightarrow> [] | Some cs \<Rightarrow> concat (map nodes cs))"

definition has_name :: "node \<Rightarrow> bool" where
  "has_name n = (node_name n \<noteq> None)"

fun rename :: "(string option \<Rightarrow> string option) \<Rightarrow> node \<Rightarrow> node" where
  "rename f (Node nm ch) =
     Node (f nm) (case ch of None \<Rightarrow> None | Some cs \<Rightarrow> Some (map (rename f) cs))"

text \<open>The dictionary that \<open>analyze_node\<close> appends for a named node \<open>t\<close> at depth \<open>d\<close>.\<close>

definition entry_of :: "string list \<Rightarrow> node \<Rightarrow> int \<Rightarrow> string \<Rightarrow> node_metrics" where
  "entry_of ap t d n =
     \<lparr>name = n, depth = d,
      direct_children = snd (count_children_recursive t 0),
      total_children = fst (count_children_recursive t 0),
      coverage_ratio =
        (if ap \<noteq> [] then rat_of_int (fst (count_children_recursive t 0)) / rat_of_nat (length ap)
         else 0),
      efficiency =
        (if d > 0 then rat_of_int (fst (count_children_recursive t 0)) / rat_of_int (d + 1)
         else rat_of_int (fst (count_children_recursive t 0))),
      has_children = (node_children t \<noteq> None)\<rparr>"

text \<open>
  The tree with every nameless child removed together with its subtree, at every level.
\<close>

fun prune :: "node \<Rightarrow> node" where
  "prune (Node nm ch) =
     Node nm (case ch of None \<Rightarrow> None | Some cs \<Rightarrow> Some (map prune (filter has_name cs)))"

text \<open>The list that \<open>analyze_hierarchy\<close> returns for the document \<open>[t]\<close>.\<close>

definition analysis_of :: "node \<Rightarrow> node_metrics list" where
  "analysis_of t = (case analyze_hierarchy [t] of Inl _ \<Rightarrow> [] | Inr analysis \<Rightarrow> analysis)"

subsection \<open>Example trees\<close>

text \<open>
  The worked example: \<open>A\<close> has the children \<open>B\<close> and \<open>C\<close>, \<open>B\<close> has five leaves,
  \<open>C\<close> has a present but empty child list. The malformed example: \<open>A\<close> has a nameless
  child with the children \<open>D\<close> and \<open>E\<close>, and a leaf \<open>C\<close>.
\<close>

definition leaf :: "string \<Rightarrow> node" where
  "leaf n = Node (Some n) None"

definition worked_example :: node where
  "worked_example =
     Node (Some ''A'')
       (Some [Node (Some ''B'') (Some [leaf ''D'', leaf ''E'', leaf ''F'', leaf ''G'', leaf ''H'']),
              Node (Some ''C'') (Some [])])"

definition malformed_example :: node where
  "malformed_example =
     Node (Some ''A'')
       (Some [Node None (Some [leaf ''D'', leaf ''E'']), leaf ''C''])"

definition nameless_leaves_example :: node where
  "nameless_leaves_example = Node (Some ''A'') (Some [Node None None, Node None None])"

subsection \<open>Example analyses\<close>

text \<open>
  Hand-written metrics entries for the selection and the set builder: a list of ten
  candidates in descending order of efficiency, and a list with three entries of equal
  efficiency, the root-equivalent entry and an entry below the child threshold.
\<close>

definition metrics :: "string \<Rightarrow> int \<Rightarrow> int \<Rightarrow> rat \<Rightarrow> node_metrics" where
  "metrics n d tc eff =
     \<lparr>name = n, depth = d, direct_children = tc, total_children = tc,
      coverage_ratio = 0, efficiency = eff, has_children = True\<rparr>"

definition ten_parents :: "node_metrics list" where
  "ten_parents =
     [metrics ''p0'' 1 60 30, metrics ''p1'' 1 50 25, metrics ''p2'' 2 60 20,
      metrics ''p3'' 1 30 15, metrics ''p4'' 2 36 12, metrics ''p5'' 1 20 10,
      metrics ''p6'' 2 27 9, metrics ''p7'' 2 24 8, metrics ''p8'' 1 12 6,
      metrics ''p9'' 2 15 5]"

definition tie_analysis :: "node_metrics list" where
  "tie_analysis =
     [metrics ''related_to'' 0 40 40, metrics ''x'' 1 12 6, metrics ''y'' 2 27 9,
      metrics ''z'' 1 12 6, metrics ''w'' 3 24 6, metrics ''small'' 1 2 1]"

section \<open>Properties\<close>

subsection \<open>The loops as sums and concatenations\<close>

lemma fold_add_sum:
  "fold (\<lambda>c acc. acc + f c) cs (a::int) = a + sum_list (map f cs)"
  by (induction cs arbitrary: a) auto

lemma fold_append_concat:
  "fold (\<lambda>c acc. acc @ f c) cs a = a @ concat (map f cs)"
  by (induction cs arbitrary: a) auto

lemma fold_acc_concat:
  assumes "\<And>c a. c \<in> set cs \<Longrightarrow> f c a = a @ f c []"
  shows "fold f cs a = a @ concat (map (\<lambda>c. f c []) cs)"
  using assms
proof (induction cs arbitrary: a)
  case Nil
  show ?case by simp
next
  case (Cons c cs)
  have "fold f (c # cs) a = fold f cs (f c a)" by simp
  also have "\<dots> = f c a @ concat (map (\<lambda>c. f c []) cs)"
    by (rule Cons.IH) (rule Cons.prems, simp)
  also have "f c a = a @ f c []"
    by (rule Cons.prems) simp
  finally show ?case by simp
qed

lemma sum_list_length_concat:
  "(\<Sum>c\<leftarrow>cs. int (length (f c))) = int (length (concat (map f cs)))"
  by (induction cs) auto

lemma sum_list_minus_one:
  "(\<Sum>c\<leftarrow>cs. int (length (f c)) - 1) = int (length (concat (map f cs))) - int (length cs)"
  by (induction cs) auto

lemma sum_list_concat_map:
  "sum_list (map g (concat (map f cs))) = (\<Sum>c\<leftarrow>cs. sum_list (map g (f c)))"
  by (induction cs) auto

lemma child_list_Node [simp]:
  "child_list (Node nm None) = []" "child_list (Node nm (Some cs)) = cs"
  by (simp_all add: child_list_def)

lemma nodes_eq: "nodes n = n # concat (map nodes (child_list n))"
  by (cases n; cases "node_children n") auto

subsection \<open>Child counts\<close>

lemma total_eq_nodes:
  "fst (count_children_recursive n d) = int (length (nodes n)) - 1"
proof (induction n d rule: count_children_recursive.induct)
  case (1 nm d)
  show ?case by simp
next
  case (2 nm cs d)
  have "(\<Sum>c\<leftarrow>cs. fst (count_children_recursive c (d + 1))) =
        (\<Sum>c\<leftarrow>cs. int (length (nodes c)) - 1)"
    using 2 by (intro arg_cong[where f=sum_list] map_cong) auto
  also have "\<dots> = (\<Sum>c\<leftarrow>cs. int (length (nodes c))) - int (length cs)"
    by (induction cs) auto
  finally show ?case
    by (simp add: fold_add_sum sum_list_length_concat)
qed

lemma direct_eq: "snd (count_children_recursive n d) = int (length (child_list n))"
  by (cases n; cases "node_children n") (auto simp: child_list_def Let_def)

lemma length_nodes_rename: "length (nodes (rename f n)) = length (nodes n)"
proof (induction n)
  case (Node nm ch)
  show ?case
  proof (cases ch)
    case None
    then show ?thesis by simp
  next
    case (Some cs)
    have "map (\<lambda>c. length (nodes (rename f c))) cs = map (\<lambda>c. length (nodes c)) cs"
      by (rule map_cong[OF refl]) (rule Node.IH[of cs], simp_all add: Some)
    then have "sum_list (map (\<lambda>c. length (nodes (rename f c))) cs) =
               sum_list (map (\<lambda>c. length (nodes c)) cs)"
      by (rule arg_cong)
    then have "length (concat (map (nodes \<circ> rename f) cs)) = length (concat (map nodes cs))"
      by (simp add: length_concat comp_def)
    then show ?thesis using Some by simp
  qed
qed

lemma child_list_rename: "child_list (rename f n) = map (rename f) (child_list n)"
  by (cases n; cases "node_children n") auto

subsection \<open>The analysis pass as a pre-order list\<close>

lemma analyze_node_None: "analyze_node ap (Node None ch) d acc = acc"
  by simp

lemma analyze_node_unfold:
  "analyze_node ap (Node (Some n) ch) d acc =
     fold (\<lambda>child a. analyze_node ap child (d + 1) a) (child_list (Node (Some n) ch))
       (acc @ [entry_of ap (Node (Some n) ch) d n])"
  by (cases ch) (simp_all add: entry_of_def child_list_def Let_def split: prod.splits)

declare analyze_node.simps [simp del]

lemma analyze_node_acc:
  "analyze_node ap t d acc = acc @ analyze_node ap t d []"
proof (induction t arbitrary: d acc)
  case (Node nm ch)
  show ?case
  proof (cases nm)
    case None
    then show ?thesis by (simp add: analyze_node_None)
  next
    case (Some n)
    let ?t = "Node (Some n) ch"
    have ih: "\<And>c a. c \<in> set (child_list ?t) \<Longrightarrow>
        analyze_node ap c (d + 1) a = a @ analyze_node ap c (d + 1) []"
    proof -
      fix c a
      assume "c \<in> set (child_list ?t)"
      then obtain cs where cs: "ch = Some cs" "c \<in> set cs"
        by (cases ch) (auto simp: child_list_def)
      show "analyze_node ap c (d + 1) a = a @ analyze_node ap c (d + 1) []"
        by (rule Node.IH[of cs]) (simp_all add: cs)
    qed
    have "analyze_node ap ?t d acc =
            (acc @ [entry_of ap ?t d n]) @
            concat (map (\<lambda>c. analyze_node ap c (d + 1) []) (child_list ?t))"
      unfolding analyze_node_unfold by (rule fold_acc_concat) (rule ih)
    moreover have "analyze_node ap ?t d [] =
            ([] @ [entry_of ap ?t d n]) @
            concat (map (\<lambda>c. analyze_node ap c (d + 1) []) (child_list ?t))"
      unfolding analyze_node_unfold by (rule fold_acc_concat) (rule ih)
    ultimately show ?thesis using Some by simp
  qed
qed

lemma analyze_node_Some:
  "analyze_node ap (Node (Some n) ch) d [] =
     entry_of ap (Node (Some n) ch) d n #
     concat (map (\<lambda>c. analyze_node ap c (d + 1) []) (child_list (Node (Some n) ch)))"
proof -
  have "analyze_node ap (Node (Some n) ch) d [] =
          ([] @ [entry_of ap (Node (Some n) ch) d n]) @
          concat (map (\<lambda>c. analyze_node ap c (d + 1) []) (child_list (Node (Some n) ch)))"
    unfolding analyze_node_unfold
    by (rule fold_acc_concat) (rule analyze_node_acc)
  then show ?thesis by simp
qed

lemma extract_all_predicates_eq:
  "extract_all_predicates (Node nm ch) d =
     (case nm of None \<Rightarrow> [] | Some n \<Rightarrow> [n]) @
     concat (map (\<lambda>c. extract_all_predicates c (d + 1)) (child_list (Node nm ch)))"
  by (cases ch) (simp_all add: child_list_def fold_append_concat)

subsection \<open>Claims about the child counts\<close>

text \<open>
  C7. For every node, the total child count is the direct child count plus the sum of the
  children's total child counts, and the direct child count is the number of immediate
  children, which is 0 when the \<open>children\<close> key is absent. The depth argument plays no
  part in the result.
\<close>

theorem total_children_recurrence:
  "fst (count_children_recursive n d) =
     snd (count_children_recursive n d) +
     (\<Sum>c\<leftarrow>child_list n. fst (count_children_recursive c d')) \<and>
   snd (count_children_recursive n d) = int (length (child_list n))"
proof -
  have "fst (count_children_recursive n d) =
          int (length (child_list n)) + (\<Sum>c\<leftarrow>child_list n. int (length (nodes c)) - 1)"
    unfolding total_eq_nodes sum_list_minus_one by (subst nodes_eq) simp
  then show ?thesis by (simp add: total_eq_nodes direct_eq)
qed

text \<open>
  C8. Over all the nodes of a tree, the direct child counts add up to the number of
  nodes minus one.
\<close>

theorem direct_children_sum:
  "(\<Sum>n\<leftarrow>nodes t. snd (count_children_recursive n 0)) = int (length (nodes t)) - 1"
proof (induction t)
  case (Node nm ch)
  let ?t = "Node nm ch"
  have ih: "\<And>c. c \<in> set (child_list ?t) \<Longrightarrow>
      (\<Sum>n\<leftarrow>nodes c. snd (count_children_recursive n 0)) = int (length (nodes c)) - 1"
  proof -
    fix c assume "c \<in> set (child_list ?t)"
    then obtain cs where cs: "ch = Some cs" "c \<in> set cs"
      by (cases ch) auto
    show "(\<Sum>n\<leftarrow>nodes c. snd (count_children_recursive n 0)) = int (length (nodes c)) - 1"
      by (rule Node.IH[of cs]) (simp_all add: cs)
  qed
  have "(\<Sum>n\<leftarrow>nodes ?t. snd (count_children_recursive n 0)) =
          int (length (child_list ?t)) +
          (\<Sum>c\<leftarrow>child_list ?t. \<Sum>n\<leftarrow>nodes c. snd (count_children_recursive n 0))"
    by (subst nodes_eq) (simp add: direct_eq sum_list_concat_map del: nodes.simps)
  also have "(\<Sum>c\<leftarrow>child_list ?t. \<Sum>n\<leftarrow>nodes c. snd (count_children_recursive n 0)) =
          (\<Sum>c\<leftarrow>child_list ?t. int (length (nodes c)) - 1)"
    by (rule arg_cong[where f = sum_list], rule map_cong[OF refl]) (rule ih)
  also have "\<dots> = int (length (concat (map nodes (child_list ?t)))) - int (length (child_list ?t))"
    by (rule sum_list_minus_one)
  finally show ?case by (subst (2) nodes_eq) simp
qed

text \<open>
  C10. The direct child count is the number of immediate children and the total child
  count is the number of strict descendants, whatever the name fields are: renaming or
  erasing names anywhere in the tree leaves both counts unchanged. The entry that the
  analysis writes for a named node carries these counts, so they include nameless
  descendants and their subtrees.
\<close>

theorem counts_ignore_names:
  "snd (count_children_recursive n d) = int (length (child_list n)) \<and>
   fst (count_children_recursive n d) = int (length (nodes n)) - 1 \<and>
   count_children_recursive (rename f n) d = count_children_recursive n d \<and>
   total_children (hd (analyze_node ap (Node (Some nm) ch) k [])) =
     int (length (nodes (Node (Some nm) ch))) - 1 \<and>
   direct_children (hd (analyze_node ap (Node (Some nm) ch) k [])) =
     int (length (child_list (Node (Some nm) ch)))"
proof -
  have "count_children_recursive (rename f n) d = count_children_recursive n d"
    by (rule prod_eqI)
       (simp_all add: total_eq_nodes direct_eq length_nodes_rename child_list_rename)
  then show ?thesis
    by (simp add: analyze_node_Some entry_of_def total_eq_nodes direct_eq del: nodes.simps)
qed

subsection \<open>Entries of the analysis\<close>

lemma analysis_of_eq: "analysis_of t = analyze_node (extract_all_predicates t 0) t 0 []"
  by (simp add: analysis_of_def analyze_hierarchy_def)

lemma analyze_hierarchy_singleton: "analyze_hierarchy (t # rest) = Inr (analysis_of t)"
  by (simp add: analysis_of_def analyze_hierarchy_def)

lemma analyze_entries:
  "e \<in> set (analyze_node ap t d []) \<Longrightarrow>
     \<exists>m k n. m \<in> set (nodes t) \<and> e = entry_of ap m k n"
proof (induction t arbitrary: d)
  case (Node nm ch)
  show ?case
  proof (cases nm)
    case None
    with Node.prems show ?thesis by (simp add: analyze_node_None)
  next
    case (Some n)
    let ?t = "Node (Some n) ch"
    from Node.prems Some
    consider "e = entry_of ap ?t d n"
      | c where "c \<in> set (child_list ?t)" "e \<in> set (analyze_node ap c (d + 1) [])"
      by (auto simp: analyze_node_Some)
    then show ?thesis
    proof cases
      case 1
      then show ?thesis using Some by auto
    next
      case 2
      then obtain cs where cs: "ch = Some cs" "c \<in> set cs"
        by (cases ch) auto
      have "\<exists>m k n. m \<in> set (nodes c) \<and> e = entry_of ap m k n"
        by (rule Node.IH[of cs c "d + 1"]) (simp_all add: cs 2)
      then show ?thesis using cs by auto
    qed
  qed
qed

lemma analysis_nonempty_named:
  "e \<in> set (analyze_node ap t d []) \<Longrightarrow> has_name t"
  by (cases t; cases "node_name t") (auto simp: analyze_node_None has_name_def)

lemma extract_eq_named:
  "extract_all_predicates t d = map (\<lambda>m. the (node_name m)) (filter has_name (nodes t))"
proof (induction t arbitrary: d)
  case (Node nm ch)
  let ?t = "Node nm ch"
  have "map (\<lambda>c. extract_all_predicates c (d + 1)) (child_list ?t) =
        map (\<lambda>c. map (\<lambda>m. the (node_name m)) (filter has_name (nodes c))) (child_list ?t)"
  proof (rule map_cong[OF refl])
    fix c assume "c \<in> set (child_list ?t)"
    then obtain cs where cs: "ch = Some cs" "c \<in> set cs"
      by (cases ch) auto
    show "extract_all_predicates c (d + 1) = map (\<lambda>m. the (node_name m)) (filter has_name (nodes c))"
      by (rule Node.IH[of cs]) (simp_all add: cs)
  qed
  then have "extract_all_predicates ?t d =
      (case nm of None \<Rightarrow> [] | Some n \<Rightarrow> [n]) @
      concat (map (\<lambda>c. map (\<lambda>m. the (node_name m)) (filter has_name (nodes c))) (child_list ?t))"
    by (simp only: extract_all_predicates_eq)
  also have "\<dots> = map (\<lambda>m. the (node_name m)) (filter has_name (nodes ?t))"
    by (subst (2) nodes_eq) (cases nm; simp add: has_name_def map_concat filter_concat comp_def del: nodes.simps)
  finally show ?case .
qed

lemma named_count_pos: "has_name t \<Longrightarrow> 0 < length (filter has_name (nodes t))"
  by (cases t) simp

lemma length_nodes_pos: "0 < length (nodes t)"
  by (cases t) simp

lemma length_nodes_mono: "m \<in> set (nodes t) \<Longrightarrow> length (nodes m) \<le> length (nodes t)"
proof (induction t)
  case (Node nm ch)
  show ?case
  proof (cases "m = Node nm ch")
    case True
    then show ?thesis by simp
  next
    case False
    with Node.prems obtain cs c where cs: "ch = Some cs" "c \<in> set cs" "m \<in> set (nodes c)"
      by (cases ch) auto
    have "length (nodes m) \<le> length (nodes c)"
      by (rule Node.IH[of cs]) (simp_all add: cs)
    also have "length (nodes c) \<le> length (concat (map nodes cs))"
      using cs(2) by (induction cs) auto
    finally show ?thesis using cs by simp
  qed
qed

subsection \<open>The example analyses\<close>

lemma worked_analysis:
  "analysis_of worked_example =
     [\<lparr>name = ''A'', depth = 0, direct_children = 2, total_children = 7,
        coverage_ratio = 7 / 8, efficiency = 7, has_children = True\<rparr>,
      \<lparr>name = ''B'', depth = 1, direct_children = 5, total_children = 5,
        coverage_ratio = 5 / 8, efficiency = 5 / 2, has_children = True\<rparr>,
      \<lparr>name = ''D'', depth = 2, direct_children = 0, total_children = 0,
        coverage_ratio = 0, efficiency = 0, has_children = False\<rparr>,
      \<lparr>name = ''E'', depth = 2, direct_children = 0, total_children = 0,
        coverage_ratio = 0, efficiency = 0, has_children = False\<rparr>,
      \<lparr>name = ''F'', depth = 2, direct_children = 0, total_children = 0,
        coverage_ratio = 0, efficiency = 0, has_children = False\<rparr>,
      \<lparr>name = ''G'', depth = 2, direct_children = 0, total_children = 0,
        coverage_ratio = 0, efficiency = 0, has_children = False\<rparr>,
      \<lparr>name = ''H'', depth = 2, direct_children = 0, total_children = 0,
        coverage_ratio = 0, efficiency = 0, has_children = False\<rparr>,
      \<lparr>name = ''C'', depth = 1, direct_children = 0, total_children = 0,
        coverage_ratio = 0, efficiency = 0, has_children = True\<rparr>]"
  by (simp add: analysis_of_eq worked_example_def leaf_def analyze_node_Some entry_of_def)

lemma malformed_analysis:
  "analysis_of malformed_example =
     [\<lparr>name = ''A'', depth = 0, direct_children = 2, total_children = 4,
        coverage_ratio = 1, efficiency = 4, has_children = True\<rparr>,
      \<lparr>name = ''C'', depth = 1, direct_children = 0, total_children = 0,
        coverage_ratio = 0, efficiency = 0, has_children = False\<rparr>]"
  by (simp add: analysis_of_eq malformed_example_def leaf_def analyze_node_Some
        analyze_node_None entry_of_def)

lemma nameless_leaves_analysis:
  "analysis_of nameless_leaves_example =
     [\<lparr>name = ''A'', depth = 0, direct_children = 2, total_children = 2,
        coverage_ratio = 2, efficiency = 2, has_children = True\<rparr>]"
  by (simp add: analysis_of_eq nameless_leaves_example_def analyze_node_Some
        analyze_node_None entry_of_def)

subsection \<open>Efficiency\<close>

text \<open>
  C1, as the code has it. Every entry of the analysis has
  efficiency = total_children / (depth + 1) when its depth is positive, and
  efficiency = total_children otherwise. The divisor is depth + 1, not depth.
\<close>

theorem efficiency_formula:
  "\<forall>e \<in> set (analyze_node ap t d []).
     efficiency e =
       (if depth e > 0 then rat_of_int (total_children e) / rat_of_int (depth e + 1)
        else rat_of_int (total_children e))"
proof
  fix e assume "e \<in> set (analyze_node ap t d [])"
  then obtain m k n where "e = entry_of ap m k n"
    using analyze_entries by blast
  then show "efficiency e =
       (if depth e > 0 then rat_of_int (total_children e) / rat_of_int (depth e + 1)
        else rat_of_int (total_children e))"
    by (simp add: entry_of_def)
qed

text \<open>
  In the worked example the node \<open>B\<close>, at depth 1 with 5 descendants, has efficiency
  5 / 2.
\<close>

theorem efficiency_formula_witness:
  "analysis_of worked_example ! 1 \<in> set (analyze_node (extract_all_predicates worked_example 0) worked_example 0 []) \<and>
   name (analysis_of worked_example ! 1) = ''B'' \<and>
   depth (analysis_of worked_example ! 1) = 1 \<and>
   total_children (analysis_of worked_example ! 1) = 5 \<and>
   efficiency (analysis_of worked_example ! 1) = 5 / 2"
proof -
  have mem: "analysis_of worked_example ! 1 \<in>
      set (analyze_node (extract_all_predicates worked_example 0) worked_example 0 [])"
    unfolding analysis_of_eq [symmetric] by (simp add: worked_analysis)
  have vals: "name (analysis_of worked_example ! 1) = ''B''"
    "depth (analysis_of worked_example ! 1) = 1"
    "total_children (analysis_of worked_example ! 1) = 5"
    by (simp_all add: worked_analysis)
  from efficiency_formula [rule_format, OF mem]
  have "efficiency (analysis_of worked_example ! 1) = 5 / 2"
    unfolding vals by simp
  with mem vals show ?thesis by simp
qed

text \<open>
  The stated formula total_children / depth fails at that node: its efficiency is neither
  5 / 1 nor 5.
\<close>

theorem efficiency_counterexample:
  "name (analysis_of worked_example ! 1) = ''B'' \<and>
   depth (analysis_of worked_example ! 1) = 1 \<and>
   total_children (analysis_of worked_example ! 1) = 5 \<and>
   efficiency (analysis_of worked_example ! 1) \<noteq>
     rat_of_int (total_children (analysis_of worked_example ! 1)) /
     rat_of_int (depth (analysis_of worked_example ! 1)) \<and>
   efficiency (analysis_of worked_example ! 1) \<noteq> 5"
  by (simp add: worked_analysis)

subsection \<open>The denominator of the coverage ratio\<close>

text \<open>
  C2, as the code has it. The predicate list is computed once and has one name for every
  named node of the whole tree, wherever the node is: named nodes below a nameless node
  are included. Every entry's coverage ratio is its total child count over that number.
\<close>

theorem coverage_denominator:
  "length (extract_all_predicates t d) = length (filter has_name (nodes t)) \<and>
   (\<forall>e \<in> set (analysis_of t).
      coverage_ratio e =
        rat_of_int (total_children e) / rat_of_nat (length (filter has_name (nodes t))))"
proof
  show len: "length (extract_all_predicates t d) = length (filter has_name (nodes t))" for d
    by (simp add: extract_eq_named)
  show "\<forall>e \<in> set (analysis_of t).
      coverage_ratio e =
        rat_of_int (total_children e) / rat_of_nat (length (filter has_name (nodes t)))"
  proof
    fix e assume e: "e \<in> set (analysis_of t)"
    then have "has_name t"
      unfolding analysis_of_eq by (rule analysis_nonempty_named)
    then have ne: "extract_all_predicates t 0 \<noteq> []"
      using named_count_pos [of t] len [of 0] by auto
    from e obtain m k n where "e = entry_of (extract_all_predicates t 0) m k n"
      unfolding analysis_of_eq using analyze_entries by blast
    then show "coverage_ratio e =
        rat_of_int (total_children e) / rat_of_nat (length (filter has_name (nodes t)))"
      using ne by (simp add: entry_of_def len)
  qed
qed

text \<open>In the malformed example the denominator is 4 and the ratio of \<open>A\<close> is 4 / 4.\<close>

theorem coverage_denominator_witness:
  "analysis_of malformed_example ! 0 \<in> set (analysis_of malformed_example) \<and>
   length (extract_all_predicates malformed_example 0) = 4 \<and>
   length (filter has_name (nodes malformed_example)) = 4 \<and>
   total_children (analysis_of malformed_example ! 0) = 4 \<and>
   coverage_ratio (analysis_of malformed_example ! 0) = 4 / 4"
proof -
  have mem: "analysis_of malformed_example ! 0 \<in> set (analysis_of malformed_example)"
    by (simp add: malformed_analysis)
  have cnt: "length (filter has_name (nodes malformed_example)) = 4"
    by (simp add: malformed_example_def leaf_def has_name_def)
  have tot: "total_children (analysis_of malformed_example ! 0) = 4"
    by (simp add: malformed_analysis)
  note inst = coverage_denominator [of malformed_example 0, unfolded cnt]
  from inst have len: "length (extract_all_predicates malformed_example 0) = 4"
    by (rule conjunct1)
  from inst have "\<forall>e \<in> set (analysis_of malformed_example).
      coverage_ratio e = rat_of_int (total_children e) / rat_of_nat 4"
    by (rule conjunct2)
  from this mem have "coverage_ratio (analysis_of malformed_example ! 0) =
      rat_of_int (total_children (analysis_of malformed_example ! 0)) / rat_of_nat 4"
    by (rule bspec)
  then have "coverage_ratio (analysis_of malformed_example ! 0) = 4 / 4"
    unfolding tot by simp
  with mem cnt tot len show ?thesis by simp
qed

text \<open>
  The stated denominator 2 is not the one used: the list holds \<open>D\<close> and \<open>E\<close>, which lie
  under the nameless node.
\<close>

theorem coverage_denominator_counterexample:
  "extract_all_predicates malformed_example 0 = [''A'', ''D'', ''E'', ''C''] \<and>
   length (extract_all_predicates malformed_example 0) \<noteq> 2 \<and>
   name (analysis_of malformed_example ! 0) = ''A'' \<and>
   total_children (analysis_of malformed_example ! 0) = 4 \<and>
   coverage_ratio (analysis_of malformed_example ! 0) = 1 \<and>
   coverage_ratio (analysis_of malformed_example ! 0) \<noteq>
     rat_of_int (total_children (analysis_of malformed_example ! 0)) / 2"
  by (simp add: malformed_analysis) (simp add: malformed_example_def leaf_def)

subsection \<open>Bounds of the coverage ratio\<close>

text \<open>
  C9, as the code has it. When every node of the tree has a name, every entry's coverage
  ratio lies between 0 and 1 and the root's ratio is (N - 1) / N for a tree of N nodes.
\<close>

theorem coverage_ratio_bounds:
  assumes "list_all has_name (nodes t)"
  shows "analysis_of t \<noteq> [] \<and>
         coverage_ratio (hd (analysis_of t)) =
           (rat_of_nat (length (nodes t)) - 1) / rat_of_nat (length (nodes t)) \<and>
         (\<forall>e \<in> set (analysis_of t). 0 \<le> coverage_ratio e \<and> coverage_ratio e \<le> 1)"
proof -
  let ?ap = "extract_all_predicates t 0"
  have "filter has_name (nodes t) = nodes t"
    using assms by (simp add: list_all_iff)
  then have len: "length ?ap = length (nodes t)"
    by (simp add: extract_eq_named)
  with length_nodes_pos [of t] have ne: "?ap \<noteq> []"
    by auto
  have "has_name t"
    using assms by (subst (asm) nodes_eq) simp
  then obtain n ch where t: "t = Node (Some n) ch"
    by (cases t) (auto simp: has_name_def)
  have hd_eq: "analysis_of t = entry_of ?ap t 0 n #
      concat (map (\<lambda>c. analyze_node ?ap c (0 + 1) []) (child_list t))"
    unfolding analysis_of_eq by (subst t, subst analyze_node_Some) (simp only: t [symmetric])
  have root: "coverage_ratio (hd (analysis_of t)) =
           (rat_of_nat (length (nodes t)) - 1) / rat_of_nat (length (nodes t))"
    unfolding hd_eq using ne by (simp add: entry_of_def total_eq_nodes len)
  have bounds: "0 \<le> coverage_ratio e \<and> coverage_ratio e \<le> 1" if "e \<in> set (analysis_of t)" for e
  proof -
    from that obtain m k n' where m: "m \<in> set (nodes t)" and e: "e = entry_of ?ap m k n'"
      unfolding analysis_of_eq using analyze_entries by blast
    have cov: "coverage_ratio e = (rat_of_nat (length (nodes m)) - 1) / rat_of_nat (length (nodes t))"
      using ne by (simp add: e entry_of_def total_eq_nodes len)
    have "1 \<le> length (nodes m)" "length (nodes m) \<le> length (nodes t)"
      using length_nodes_pos [of m] length_nodes_mono [OF m] by linarith+
    then have "1 \<le> rat_of_nat (length (nodes m))"
      "rat_of_nat (length (nodes m)) \<le> rat_of_nat (length (nodes t))"
      "0 < rat_of_nat (length (nodes t))"
      using length_nodes_pos [of t] by simp_all
    then show ?thesis unfolding cov by simp
  qed
  from hd_eq root bounds show ?thesis by simp
qed

text \<open>The worked example has 8 named nodes; its root has ratio 7 / 8.\<close>

theorem coverage_ratio_bounds_witness:
  "list_all has_name (nodes worked_example) \<and>
   length (nodes worked_example) = 8 \<and>
   analysis_of worked_example \<noteq> [] \<and>
   coverage_ratio (hd (analysis_of worked_example)) = 7 / 8 \<and>
   analysis_of worked_example ! 1 \<in> set (analysis_of worked_example) \<and>
   0 \<le> coverage_ratio (analysis_of worked_example ! 1) \<and>
   coverage_ratio (analysis_of worked_example ! 1) \<le> 1"
proof -
  have named: "list_all has_name (nodes worked_example)"
    by (simp add: worked_example_def leaf_def has_name_def)
  have len: "length (nodes worked_example) = 8"
    by (simp add: worked_example_def leaf_def)
  have mem: "analysis_of worked_example ! 1 \<in> set (analysis_of worked_example)"
    by (simp add: worked_analysis)
  note inst = coverage_ratio_bounds [OF named, unfolded len]
  from inst have "analysis_of worked_example \<noteq> []"
    by (rule conjunct1)
  moreover from inst have "coverage_ratio (hd (analysis_of worked_example)) = (rat_of_nat 8 - 1) / rat_of_nat 8"
    by (rule conjunct1 [OF conjunct2])
  moreover from inst have "\<forall>e \<in> set (analysis_of worked_example).
      0 \<le> coverage_ratio e \<and> coverage_ratio e \<le> 1"
    by (rule conjunct2 [OF conjunct2])
  from this mem have "0 \<le> coverage_ratio (analysis_of worked_example ! 1) \<and>
      coverage_ratio (analysis_of worked_example ! 1) \<le> 1"
    by (rule bspec)
  ultimately show ?thesis using named len mem by simp
qed

text \<open>
  With nameless nodes the bound fails: a root with two nameless leaves has ratio 2, which
  is above 1 and is not (3 - 1) / 3.
\<close>

theorem coverage_ratio_bounds_counterexample:
  "analyze_hierarchy [nameless_leaves_example] = Inr (analysis_of nameless_leaves_example) \<and>
   length (nodes nameless_leaves_example) = 3 \<and>
   name (hd (analysis_of nameless_leaves_example)) = ''A'' \<and>
   coverage_ratio (hd (analysis_of nameless_leaves_example)) = 2 \<and>
   \<not> coverage_ratio (hd (analysis_of nameless_leaves_example)) \<le> 1 \<and>
   coverage_ratio (hd (analysis_of nameless_leaves_example)) \<noteq>
     (rat_of_nat (length (nodes nameless_leaves_example)) - 1) /
     rat_of_nat (length (nodes nameless_leaves_example))"
  by (simp add: nameless_leaves_analysis analyze_hierarchy_singleton)
     (simp add: nameless_leaves_example_def)

subsection \<open>Nameless nodes\<close>

lemma concat_map_if_filter:
  "concat (map (\<lambda>c. if P c then g c else []) cs) = concat (map g (filter P cs))"
  by (induction cs) auto

lemma child_list_prune:
  "child_list (prune t) = map prune (filter has_name (child_list t))"
  by (cases t; cases "node_children t") auto

lemma node_name_prune [simp]: "node_name (prune t) = node_name t"
  by (cases t) simp

lemma has_name_prune [simp]: "has_name (prune t) = has_name t"
  by (simp add: has_name_def)

lemma analyze_node_names:
  "map name (analyze_node ap t d []) =
     (if has_name t then map (\<lambda>m. the (node_name m)) (nodes (prune t)) else [])"
proof (induction t arbitrary: d)
  case (Node nm ch)
  show ?case
  proof (cases nm)
    case None
    then show ?thesis by (simp add: analyze_node_None has_name_def)
  next
    case (Some n)
    let ?t = "Node (Some n) ch"
    let ?g = "\<lambda>c. map (\<lambda>m. the (node_name m)) (nodes (prune c))"
    have eq: "map (\<lambda>c. map name (analyze_node ap c (d + 1) [])) (child_list ?t) =
          map (\<lambda>c. if has_name c then ?g c else []) (child_list ?t)"
    proof (rule map_cong[OF refl])
      fix c assume "c \<in> set (child_list ?t)"
      then obtain cs where cs: "ch = Some cs" "c \<in> set cs"
        by (cases ch) auto
      show "map name (analyze_node ap c (d + 1) []) = (if has_name c then ?g c else [])"
        by (rule Node.IH[of cs]) (simp_all add: cs)
    qed
    have "map name (analyze_node ap ?t d []) =
        n # concat (map (\<lambda>c. map name (analyze_node ap c (d + 1) [])) (child_list ?t))"
      by (simp add: analyze_node_Some entry_of_def map_concat comp_def)
    also have "\<dots> = n # concat (map (\<lambda>c. if has_name c then ?g c else []) (child_list ?t))"
      by (simp only: eq)
    also have "\<dots> = n # concat (map ?g (filter has_name (child_list ?t)))"
      by (simp only: concat_map_if_filter)
    also have "\<dots> = map (\<lambda>m. the (node_name m)) (nodes (prune ?t))"
      by (subst nodes_eq [of "prune ?t"])
         (simp add: child_list_prune map_concat comp_def del: nodes.simps prune.simps)
    finally show ?thesis using Some by (simp add: has_name_def del: nodes.simps prune.simps)
  qed
qed

lemma prune_descendants_named: "list_all has_name (tl (nodes (prune t)))"
proof (induction t)
  case (Node nm ch)
  let ?t = "Node nm ch"
  have "list_all has_name (nodes (prune c))" if "c \<in> set (filter has_name (child_list ?t))" for c
  proof -
    from that obtain cs where cs: "ch = Some cs" "c \<in> set cs" and named: "has_name c"
      by (cases ch) auto
    have "list_all has_name (tl (nodes (prune c)))"
      by (rule Node.IH[of cs]) (simp_all add: cs)
    then show ?thesis
      using named by (subst nodes_eq) (simp add: nodes_eq [of "prune c"])
  qed
  then have "list_all has_name (concat (map (\<lambda>c. nodes (prune c)) (filter has_name (child_list ?t))))"
    by (simp add: list_all_iff)
  then show ?case
    by (subst nodes_eq) (simp add: child_list_prune comp_def del: nodes.simps prune.simps)
qed

text \<open>
  C3. A nameless node returns the list unchanged, so neither it nor any node below it
  gets an entry. The names of the entries, in order, are the names of the nodes of the
  pruned tree in pre-order (all of which have a name), so the rest of the tree is still
  processed. \<open>analyze_hierarchy\<close> returns a list and no error on a non-empty document.
\<close>

theorem nameless_subtree_dropped:
  "analyze_node ap (Node None ch) d acc = acc \<and>
   map name (analyze_node ap t d []) =
     (if has_name t then map (\<lambda>m. the (node_name m)) (nodes (prune t)) else []) \<and>
   list_all has_name (tl (nodes (prune t))) \<and>
   analyze_hierarchy (t # rest) = Inr (analyze_node (extract_all_predicates t 0) t 0 [])"
  by (simp add: analyze_node_None analyze_node_names prune_descendants_named
        analyze_hierarchy_def)

text \<open>
  In the malformed example only \<open>A\<close> and \<open>C\<close> are left after pruning, and the analysis
  has exactly these two entries.
\<close>

theorem nameless_subtree_dropped_witness:
  "analyze_hierarchy [malformed_example] = Inr (analysis_of malformed_example) \<and>
   prune malformed_example = Node (Some ''A'') (Some [leaf ''C'']) \<and>
   map name (analysis_of malformed_example) = [''A'', ''C'']"
proof -
  have pr: "prune malformed_example = Node (Some ''A'') (Some [leaf ''C''])"
    by (simp add: malformed_example_def leaf_def has_name_def)
  have nm: "has_name malformed_example"
    by (simp add: malformed_example_def has_name_def)
  note inst = nameless_subtree_dropped [of "extract_all_predicates malformed_example 0" None 0 "[]"
      malformed_example "[]"]
  from inst have "map name (analysis_of malformed_example) =
      map (\<lambda>m. the (node_name m)) (nodes (prune malformed_example))"
    unfolding analysis_of_eq using nm by simp
  then have "map name (analysis_of malformed_example) = [''A'', ''C'']"
    unfolding pr by (simp add: leaf_def)
  moreover from inst have "analyze_hierarchy [malformed_example] = Inr (analysis_of malformed_example)"
    unfolding analysis_of_eq by simp
  ultimately show ?thesis using pr by simp
qed

subsection \<open>The reversed stable sort\<close>

lemma sort_reverse_sorted:
  "sorted_wrt (\<lambda>a b. key a \<ge> key b) (sort_reverse key xs)"
proof -
  have "sorted_wrt (\<lambda>a b. key a \<le> key b) (sort_key key (rev xs))"
    using sorted_sort_key [of key "rev xs"] by (simp add: sorted_map)
  then show ?thesis
    by (simp add: sort_reverse_def sorted_wrt_rev)
qed

lemma sort_reverse_stable:
  "filter (\<lambda>x. key x = k) (sort_reverse key xs) = filter (\<lambda>x. key x = k) xs"
  by (simp add: sort_reverse_def rev_filter [symmetric] sort_key_stable)

lemma set_sort_reverse: "set (sort_reverse key xs) = set xs"
  by (simp add: sort_reverse_def)

lemma length_sort_reverse: "length (sort_reverse key xs) = length xs"
  by (simp add: sort_reverse_def)

lemma tie_parents:
  "find_optimal_parents tie_analysis 5 3 =
     [metrics ''y'' 2 27 9, metrics ''x'' 1 12 6, metrics ''z'' 1 12 6, metrics ''w'' 3 24 6]"
  by (simp add: find_optimal_parents_def sort_reverse_def tie_analysis_def metrics_def)

lemma ten_parents_optimal: "find_optimal_parents ten_parents 10 2 = ten_parents"
  by (simp add: find_optimal_parents_def sort_reverse_def ten_parents_def metrics_def)

subsection \<open>Selecting parents\<close>

text \<open>
  C4. An entry is in the output of \<open>find_optimal_parents\<close> exactly when it is an entry
  of the input with has_children true, total_children at least min_children, depth at
  most max_depth and a name other than related_to. So the name related_to never occurs in
  the output, whatever the thresholds are.
\<close>

theorem find_optimal_parents_filter:
  "(e \<in> set (find_optimal_parents analysis min_children max_depth) \<longleftrightarrow>
      e \<in> set analysis \<and> has_children e \<and> total_children e \<ge> min_children \<and>
      depth e \<le> max_depth \<and> name e \<noteq> ''related_to'') \<and>
   ''related_to'' \<notin> name ` set (find_optimal_parents analysis min_children max_depth)"
  by (auto simp: find_optimal_parents_def set_sort_reverse)

text \<open>
  On the list with ties and thresholds 5 and 3: \<open>y\<close> is selected, the related_to entry
  and the entry with 2 children are not.
\<close>

theorem find_optimal_parents_filter_witness:
  "metrics ''y'' 2 27 9 \<in> set (find_optimal_parents tie_analysis 5 3) \<and>
   metrics ''related_to'' 0 40 40 \<notin> set (find_optimal_parents tie_analysis 5 3) \<and>
   metrics ''small'' 1 2 1 \<notin> set (find_optimal_parents tie_analysis 5 3)"
proof -
  have "metrics ''y'' 2 27 9 \<in> set (find_optimal_parents tie_analysis 5 3)"
    unfolding find_optimal_parents_filter [of _ tie_analysis 5 3, THEN conjunct1]
    by (simp add: tie_analysis_def metrics_def)
  moreover have "metrics ''related_to'' 0 40 40 \<notin> set (find_optimal_parents tie_analysis 5 3)"
    unfolding find_optimal_parents_filter [of _ tie_analysis 5 3, THEN conjunct1]
    by (simp add: metrics_def)
  moreover have "metrics ''small'' 1 2 1 \<notin> set (find_optimal_parents tie_analysis 5 3)"
    unfolding find_optimal_parents_filter [of _ tie_analysis 5 3, THEN conjunct1]
    by (simp add: metrics_def)
  ultimately show ?thesis by simp
qed

text \<open>
  C5. The output of \<open>find_optimal_parents\<close> is in descending order of efficiency, and
  the sort is stable: the entries of any one efficiency are in the output in the order in
  which they pass the filter in the input.
\<close>

theorem find_optimal_parents_sorted_stable:
  "sorted_wrt (\<lambda>a b. efficiency a \<ge> efficiency b)
     (find_optimal_parents analysis min_children max_depth) \<and>
   (\<forall>k. filter (\<lambda>e. efficiency e = k) (find_optimal_parents analysis min_children max_depth) =
        filter (\<lambda>e. efficiency e = k)
          (filter (\<lambda>node. has_children node \<and> total_children node \<ge> min_children \<and>
                          depth node \<le> max_depth \<and> name node \<noteq> ''related_to'') analysis))"
  by (simp add: find_optimal_parents_def sort_reverse_sorted sort_reverse_stable)

text \<open>
  On the list with ties: \<open>x\<close>, \<open>z\<close> and \<open>w\<close> all have efficiency 6 and keep their input
  order behind \<open>y\<close>.
\<close>

theorem find_optimal_parents_sorted_stable_witness:
  "find_optimal_parents tie_analysis 5 3 =
     [metrics ''y'' 2 27 9, metrics ''x'' 1 12 6, metrics ''z'' 1 12 6, metrics ''w'' 3 24 6] \<and>
   sorted_wrt (\<lambda>a b. efficiency a \<ge> efficiency b) (find_optimal_parents tie_analysis 5 3) \<and>
   filter (\<lambda>e. efficiency e = 6) (find_optimal_parents tie_analysis 5 3) =
     [metrics ''x'' 1 12 6, metrics ''z'' 1 12 6, metrics ''w'' 3 24 6]"
proof -
  note inst = find_optimal_parents_sorted_stable [of tie_analysis 5 3]
  have "sorted_wrt (\<lambda>a b. efficiency a \<ge> efficiency b) (find_optimal_parents tie_analysis 5 3)"
    using inst by (rule conjunct1)
  moreover have "filter (\<lambda>e. efficiency e = 6) (find_optimal_parents tie_analysis 5 3) =
      [metrics ''x'' 1 12 6, metrics ''z'' 1 12 6, metrics ''w'' 3 24 6]"
    unfolding inst [THEN conjunct2, rule_format]
    by (simp add: tie_analysis_def metrics_def)
  ultimately show ?thesis by (simp add: tie_parents)
qed

subsection \<open>The predicate sets\<close>

text \<open>
  C6. With optimal_parents the output of \<open>find_optimal_parents\<close> at thresholds 10 and 2:
  comprehensive holds the names of its first 5 entries; focused the names of the first 8
  entries with total_children between 20 and 50; minimal the first 6 with total_children
  between 5 and 20; high_level the first 6 with depth at most 2. Each is taken from the
  list in its order. The dictionary has these four keys and no other.
\<close>

theorem create_predicate_sets_contents:
  "create_predicate_sets analysis ''comprehensive'' =
     Some (map name (take 5 (find_optimal_parents analysis 10 2))) \<and>
   create_predicate_sets analysis ''focused'' =
     Some (map name (take 8 (filter (\<lambda>p. 20 \<le> total_children p \<and> total_children p \<le> 50)
                               (find_optimal_parents analysis 10 2)))) \<and>
   create_predicate_sets analysis ''minimal'' =
     Some (map name (take 6 (filter (\<lambda>p. 5 \<le> total_children p \<and> total_children p \<le> 20)
                               (find_optimal_parents analysis 10 2)))) \<and>
   create_predicate_sets analysis ''high_level'' =
     Some (map name (take 6 (filter (\<lambda>p. depth p \<le> 2) (find_optimal_parents analysis 10 2)))) \<and>
   dom (create_predicate_sets analysis) =
     {''comprehensive'', ''focused'', ''minimal'', ''high_level''}"
  by (simp add: create_predicate_sets_def Let_def) blast

text \<open>
  For the ten candidates with distinct efficiencies, comprehensive is the names of the
  first five in the incoming order.
\<close>

theorem create_predicate_sets_contents_witness:
  "find_optimal_parents ten_parents 10 2 = ten_parents \<and>
   create_predicate_sets ten_parents ''comprehensive'' = Some (map name (take 5 ten_parents)) \<and>
   create_predicate_sets ten_parents ''comprehensive'' =
     Some [''p0'', ''p1'', ''p2'', ''p3'', ''p4''] \<and>
   create_predicate_sets ten_parents ''focused'' =
     Some [''p1'', ''p3'', ''p4'', ''p5'', ''p6'', ''p7''] \<and>
   create_predicate_sets ten_parents ''minimal'' = Some [''p5'', ''p8'', ''p9''] \<and>
   create_predicate_sets ten_parents ''high_level'' =
     Some [''p0'', ''p1'', ''p2'', ''p3'', ''p4'', ''p5'']"
proof -
  note inst = create_predicate_sets_contents [of ten_parents, unfolded ten_parents_optimal]
  have "create_predicate_sets ten_parents ''comprehensive'' = Some (map name (take 5 ten_parents))"
    using inst by (rule conjunct1)
  moreover have "map name (take 5 ten_parents) = [''p0'', ''p1'', ''p2'', ''p3'', ''p4'']"
    by (simp add: ten_parents_def metrics_def)
  moreover have "create_predicate_sets ten_parents ''focused'' =
      Some [''p1'', ''p3'', ''p4'', ''p5'', ''p6'', ''p7'']"
    unfolding inst [THEN conjunct2, THEN conjunct1]
    by (simp add: ten_parents_def metrics_def)
  moreover have "create_predicate_sets ten_parents ''minimal'' = Some [''p5'', ''p8'', ''p9'']"
    unfolding inst [THEN conjunct2, THEN conjunct2, THEN conjunct1]
    by (simp add: ten_parents_def metrics_def)
  moreover have "create_predicate_sets ten_parents ''high_level'' =
      Some [''p0'', ''p1'', ''p2'', ''p3'', ''p4'', ''p5'']"
    unfolding inst [THEN conjunct2, THEN conjunct2, THEN conjunct2, THEN conjunct1]
    by (simp add: ten_parents_def metrics_def)
  ultimately show ?thesis by (simp add: ten_parents_optimal)
qed

end
